theory Spec2Isabelle
  imports Main "HOL-Library.Word"
begin

section \<open>genmap: a chained hash table with a slab allocator and an iterator\<close>

text \<open>
  A shallow embedding of \<^verbatim>\<open>map.go\<close>. A function of the source is a HOL function that
  takes the table (and the iterator) and returns the updated one with its result. It has
  the name of the source, but for \<^verbatim>\<open>remove\<close> (here \<open>remove_slot\<close>) and the Remove of the
  iterator (here \<open>it_Remove\<close>). A panic of the Go runtime or of the code ends the call: it
  is the left injection of a sum, and the table it leaves behind is not modelled.

  Integers: a hash is a \<open>64 word\<close>. Lengths, capacities and positions (Go \<open>int\<close> and
  \<open>uint64\<close>) are \<open>nat\<close>: they are bounded by the size of an allocated array, so no
  conversion between \<open>int\<close> and \<open>uint64\<close> in the source changes a value. The counter
  \<open>len\<close> is an \<open>int\<close>: the code decrements it without a check, so it can go below 0.
\<close>

subsection \<open>Data\<close>

datatype panic =
    TooManyArguments       \<comment> \<open>\<^verbatim>\<open>panic("too many arguments")\<close>\<close>
  | IteratorPositionNotSet \<comment> \<open>\<^verbatim>\<open>panic("iterator position not set")\<close>\<close>
  | DivideByZero           \<comment> \<open>runtime: integer divide by zero\<close>
  | MakeLenOutOfRange      \<comment> \<open>runtime: makeslice: len out of range\<close>
  | SliceBoundsOutOfRange  \<comment> \<open>runtime: slice bounds out of range\<close>

record ('k, 'v) MapElement =
  Key :: 'k
  Value :: 'v
  hash :: "64 word"

text \<open>The zero value \<^verbatim>\<open>MapElement[K, V]{}\<close>; the zero values of \<open>K\<close> and \<open>V\<close> are \<open>0\<close>.\<close>

definition zeroElem :: "('k::zero, 'v::zero) MapElement" where
  "zeroElem = \<lparr>Key = 0, Value = 0, hash = 0\<rparr>"

text \<open>
  A Go slice is a window on a backing array. \<open>Slice live spare\<close> holds the cells of the
  array from the start of the slice: \<open>live\<close> are the cells below \<^verbatim>\<open>len\<close>, \<open>spare\<close> the
  cells from \<^verbatim>\<open>len\<close> up to \<^verbatim>\<open>cap\<close>. \<open>NilSlice\<close> is \<^verbatim>\<open>nil\<close>. The backing arrays of
  two slices the table holds never overlap: a region carved from the slab is cut with a
  capacity (\<^verbatim>\<open>[lo:hi:max]\<close>), and \<^verbatim>\<open>append\<close> and \<^verbatim>\<open>make\<close> allocate fresh arrays.
\<close>

datatype 'e slice = NilSlice | Slice "'e list" "'e list"

type_synonym ('k, 'v) bucket = "('k, 'v) MapElement slice"

fun is_nil :: "'e slice \<Rightarrow> bool" where
  "is_nil NilSlice = True"
| "is_nil (Slice l s) = False"

fun elems :: "'e slice \<Rightarrow> 'e list" where
  "elems NilSlice = []"
| "elems (Slice l s) = l"

fun spare :: "'e slice \<Rightarrow> 'e list" where
  "spare NilSlice = []"
| "spare (Slice l s) = s"

definition slice_len :: "'e slice \<Rightarrow> nat" where
  "slice_len b = length (elems b)"

definition slice_cap :: "'e slice \<Rightarrow> nat" where
  "slice_cap b = length (elems b) + length (spare b)"

text \<open>\<^verbatim>\<open>b[i] = x\<close>, for \<open>i\<close> below the length.\<close>

fun slice_set :: "'e slice \<Rightarrow> nat \<Rightarrow> 'e \<Rightarrow> 'e slice" where
  "slice_set NilSlice i x = NilSlice"
| "slice_set (Slice l s) i x = Slice (l[i := x]) s"

text \<open>\<^verbatim>\<open>b[:len(b)+1]\<close>, taken only where \<^verbatim>\<open>len(b)+1 <= cap(b)\<close>: the first spare cell,
  with what it holds, becomes the last live one.\<close>

fun slice_extend :: "'e slice \<Rightarrow> 'e slice" where
  "slice_extend (Slice l (c # s)) = Slice (l @ [c]) s"
| "slice_extend b = b"

text \<open>\<^verbatim>\<open>b[:len(b)-1]\<close>, taken only where the length is positive.\<close>

fun slice_shrink :: "'e slice \<Rightarrow> 'e slice" where
  "slice_shrink NilSlice = NilSlice"
| "slice_shrink (Slice l s) = (if l = [] then Slice l s else Slice (butlast l) (last l # s))"

text \<open>\<^verbatim>\<open>b[:0]\<close>.\<close>

fun slice_clear :: "'e slice \<Rightarrow> 'e slice" where
  "slice_clear NilSlice = NilSlice"
| "slice_clear (Slice l s) = Slice [] (l @ s)"

text \<open>The built-in \<^verbatim>\<open>copy(dst, src)\<close> on the live cells: it copies
  \<open>min (len dst) (len src)\<close> cells and is correct when the two overlap.\<close>

definition copy_cells :: "'e list \<Rightarrow> 'e list \<Rightarrow> 'e list" where
  "copy_cells dst src =
     (let n = min (length dst) (length src) in take n src @ drop n dst)"

fun copy_slice :: "'e slice \<Rightarrow> 'e slice \<Rightarrow> 'e slice" where
  "copy_slice NilSlice src = NilSlice"
| "copy_slice (Slice l s) src = Slice (copy_cells l (elems src)) s"

text \<open>\<^verbatim>\<open>make([]MapElement[K, V], n)\<close>: length \<open>n\<close> and capacity \<open>n\<close>, every cell zero.\<close>

definition make_slice :: "nat \<Rightarrow> ('k::zero, 'v::zero) bucket" where
  "make_slice n = Slice (replicate n zeroElem) []"

text \<open>
  The built-in \<^verbatim>\<open>append(b, x)\<close>. With a spare cell it writes in place. Without one it
  allocates a new array, whose capacity the Go runtime chooses: \<open>growcap c\<close> is that
  choice for a full slice of capacity \<open>c\<close> (the runtime doubles small capacities), and the
  language promises room for the new element whatever the choice.
\<close>

fun append_slice :: "(nat \<Rightarrow> nat) \<Rightarrow> ('k::zero, 'v::zero) bucket \<Rightarrow> ('k, 'v) MapElement
    \<Rightarrow> ('k, 'v) bucket" where
  "append_slice growcap (Slice l (c # s)) x = Slice (l @ [x]) s"
| "append_slice growcap b x =
     Slice (elems b @ [x]) (replicate (growcap (slice_cap b) - (slice_len b + 1)) zeroElem)"

text \<open>
  The table. \<open>m_equal\<close> and \<open>m_hash\<close> are the fields \<^verbatim>\<open>equal\<close> and \<^verbatim>\<open>hash\<close>.
  \<open>allocBuffer\<close> is the length of the slab slice, the number of cells not carved yet.
  Their content needs no model: \<^verbatim>\<open>make\<close> zeroes the slab, the code assigns to the field
  only \<^verbatim>\<open>make(..., 1024)\<close> and \<^verbatim>\<open>m.allocBuffer[:last]\<close>, and it writes to a cell only
  through a slice carved from the slab, which lies above the length left. So a carved
  region is a run of zero cells.
\<close>

record ('k, 'v) GMap =
  m_equal :: "'k \<Rightarrow> 'k \<Rightarrow> bool"
  m_hash :: "'k \<Rightarrow> 64 word"
  buckets :: "('k, 'v) bucket list"
  len :: int
  allocBuffer :: nat
  freeSlices :: "('k, 'v) bucket list"

definition maxFreeSlices :: nat where
  "maxFreeSlices = 128"

record MapIterator =
  mapPos :: nat
  pos :: nat
  ready :: bool

subsection \<open>Construction, Len, Clear\<close>

definition NewMap :: "('k \<Rightarrow> 'k \<Rightarrow> bool) \<Rightarrow> ('k \<Rightarrow> 64 word) \<Rightarrow> int list
    \<Rightarrow> panic + ('k::zero, 'v::zero) GMap" where
  "NewMap eq h bucketSizeOpt =
     (if length bucketSizeOpt > 1 then Inl TooManyArguments
      else
        let bucketsSize = (if length bucketSizeOpt = 1 then bucketSizeOpt ! 0 else 65536)
        in if bucketsSize < 0 then Inl MakeLenOutOfRange
           else Inr \<lparr>m_equal = eq, m_hash = h,
                     buckets = replicate (nat bucketsSize) NilSlice,
                     len = 0, allocBuffer = 0, freeSlices = []\<rparr>)"

definition Len :: "('k, 'v) GMap \<Rightarrow> int" where
  "Len m = len m"

definition Clear :: "('k, 'v) GMap \<Rightarrow> ('k, 'v) GMap" where
  "Clear m = m\<lparr>buckets := map (\<lambda>b. NilSlice) (buckets m), len := 0\<rparr>"

subsection \<open>The allocator\<close>

definition newElemSlice :: "('k::zero, 'v::zero) GMap \<Rightarrow> nat \<Rightarrow> nat
    \<Rightarrow> panic + (('k, 'v) bucket \<times> ('k, 'v) GMap)" where
  "newElemSlice m sz capacity =
     (if length (freeSlices m) > 0 \<and> slice_len (last (freeSlices m)) \<ge> sz
      then Inr (last (freeSlices m), m\<lparr>freeSlices := butlast (freeSlices m)\<rparr>)
      else
        let ab = (if allocBuffer m < capacity then 1024 else allocBuffer m)
        in if ab < capacity \<or> capacity < sz then Inl SliceBoundsOutOfRange
           else
             let lastp = ab - capacity
             in Inr (Slice (replicate sz zeroElem) (replicate (capacity - sz) zeroElem),
                     m\<lparr>allocBuffer := lastp\<rparr>))"

definition freeElemSlice :: "('k::zero, 'v::zero) GMap \<Rightarrow> ('k, 'v) bucket \<Rightarrow> ('k, 'v) GMap" where
  "freeElemSlice m sl =
     (let sl1 = (if slice_len sl > 0
                 then slice_clear (Slice (map (\<lambda>e. zeroElem) (elems sl)) (spare sl))
                 else sl)
      in if length (freeSlices m) < maxFreeSlices
         then m\<lparr>freeSlices := freeSlices m @ [sl1]\<rparr>
         else m)"

subsection \<open>Lookup\<close>

text \<open>
  The search that Get, Put, Upsert and Remove each spell out: nothing in an empty
  bucket, then slot 0, then the loop \<^verbatim>\<open>for pos := 1; pos < len(bucket); pos++\<close>. The
  result is the position of the first match.
\<close>

fun scan :: "('k \<Rightarrow> 'k \<Rightarrow> bool) \<Rightarrow> 64 word \<Rightarrow> 'k \<Rightarrow> ('k, 'v) MapElement list \<Rightarrow> nat
    \<Rightarrow> nat option" where
  "scan eq h key [] p = None"
| "scan eq h key (e # es) p =
     (if hash e = h \<and> eq (Key e) key then Some p else scan eq h key es (Suc p))"

definition probe :: "('k \<Rightarrow> 'k \<Rightarrow> bool) \<Rightarrow> 64 word \<Rightarrow> 'k \<Rightarrow> ('k, 'v) bucket \<Rightarrow> nat option" where
  "probe eq h key bucket =
     (if slice_len bucket = 0 then None
      else if hash (elems bucket ! 0) = h \<and> eq (Key (elems bucket ! 0)) key then Some 0
      else if slice_len bucket > 1 then scan eq h key (drop 1 (elems bucket)) 1
      else None)"

definition Get :: "('k, 'v::zero) GMap \<Rightarrow> 'k \<Rightarrow> panic + (('v \<times> bool) \<times> ('k, 'v) GMap)" where
  "Get m key =
     (let h = m_hash m key in
      if length (buckets m) = 0 then Inl DivideByZero
      else
        let bucketID = unat h mod length (buckets m);
            bucket = buckets m ! bucketID
        in case probe (m_equal m) h key bucket of
             None \<Rightarrow> Inr ((0, False), m)
           | Some p \<Rightarrow> Inr ((Value (elems bucket ! p), True), m))"

subsection \<open>Put\<close>

definition Put :: "(nat \<Rightarrow> nat) \<Rightarrow> ('k::zero, 'v::zero) GMap \<Rightarrow> 'k \<Rightarrow> 'v
    \<Rightarrow> panic + ('k, 'v) GMap" where
  "Put growcap m key val =
     (let h = m_hash m key in
      if length (buckets m) = 0 then Inl DivideByZero
      else
        let bucketID = unat h mod length (buckets m);
            bucket = buckets m ! bucketID
        in case probe (m_equal m) h key bucket of
             Some p \<Rightarrow>
               Inr (m\<lparr>buckets := (buckets m)
                      [bucketID := slice_set bucket p ((elems bucket ! p)\<lparr>Value := val\<rparr>)]\<rparr>)
           | None \<Rightarrow>
               (let m1 = m\<lparr>len := len m + 1\<rparr> in
                case (if is_nil bucket then newElemSlice m1 0 1 else Inr (bucket, m1)) of
                  Inl e \<Rightarrow> Inl e
                | Inr (bucket1, m2) \<Rightarrow>
                    (if slice_len bucket1 + 1 > slice_cap bucket1 then
                       (if slice_len bucket1 < 3 then
                          (case newElemSlice m2 (slice_len bucket1 + 1) 4 of
                             Inl e \<Rightarrow> Inl e
                           | Inr (newBucket, m3) \<Rightarrow>
                               (let newBucket1 = copy_slice newBucket bucket1;
                                    m4 = freeElemSlice m3 bucket1
                                in Inr (m4\<lparr>buckets := (buckets m4)[bucketID := newBucket1]\<rparr>)))
                        else
                          Inr (m2\<lparr>buckets := (buckets m2)
                                 [bucketID := append_slice growcap bucket1
                                    \<lparr>Key = key, Value = val, hash = h\<rparr>]\<rparr>))
                     else
                       (let bucket2 = slice_extend bucket1;
                            bucket3 = slice_set bucket2 (slice_len bucket2 - 1)
                                        \<lparr>Key = key, Value = val, hash = h\<rparr>
                        in Inr (m2\<lparr>buckets := (buckets m2)[bucketID := bucket3]\<rparr>)))))"

subsection \<open>Upsert\<close>

text \<open>
  The callback receives a pointer to a slot of a bucket of the table and a flag. In the
  model the pointer is the place \<open>(bucketID, p)\<close>: \<open>call_update\<close> reads the slot there,
  records the call (the element the callback sees and the flag) and writes back what the
  callback leaves in the slot. Upsert returns the calls it made, in order.
\<close>

definition call_update :: "(('k, 'v) MapElement \<Rightarrow> bool \<Rightarrow> ('k, 'v) MapElement)
    \<Rightarrow> ('k, 'v) GMap \<Rightarrow> nat \<Rightarrow> nat \<Rightarrow> bool
    \<Rightarrow> (('k, 'v) MapElement \<times> bool) list \<times> ('k, 'v) GMap" where
  "call_update update m bucketID p exists =
     (let bucket = buckets m ! bucketID;
          e = elems bucket ! p
      in ([(e, exists)],
          m\<lparr>buckets := (buckets m)[bucketID := slice_set bucket p (update e exists)]\<rparr>))"

definition Upsert :: "(nat \<Rightarrow> nat) \<Rightarrow> ('k::zero, 'v::zero) GMap \<Rightarrow> 'k
    \<Rightarrow> (('k, 'v) MapElement \<Rightarrow> bool \<Rightarrow> ('k, 'v) MapElement)
    \<Rightarrow> panic + ((('k, 'v) MapElement \<times> bool) list \<times> ('k, 'v) GMap)" where
  "Upsert growcap m key update =
     (let h = m_hash m key in
      if length (buckets m) = 0 then Inl DivideByZero
      else
        let bucketID = unat h mod length (buckets m);
            bucket = buckets m ! bucketID
        in case probe (m_equal m) h key bucket of
             Some p \<Rightarrow> Inr (call_update update m bucketID p True)
           | None \<Rightarrow>
               (let m1 = m\<lparr>len := len m + 1\<rparr> in
                case (if is_nil bucket then newElemSlice m1 0 1 else Inr (bucket, m1)) of
                  Inl e \<Rightarrow> Inl e
                | Inr (bucket1, m2) \<Rightarrow>
                    (case (if slice_len bucket1 + 1 \<le> slice_cap bucket1
                           then Inr (slice_extend bucket1, m2)
                           else if slice_len bucket1 < 3 then
                             (case newElemSlice m2 (slice_len bucket1 + 1) 4 of
                                Inl e \<Rightarrow> Inl e
                              | Inr (newBucket, m3) \<Rightarrow>
                                  Inr (copy_slice newBucket bucket1, freeElemSlice m3 bucket1))
                           else Inr (append_slice growcap bucket1 zeroElem, m2)) of
                       Inl e \<Rightarrow> Inl e
                     | Inr (bucket2, m4) \<Rightarrow>
                         (if slice_len bucket2 = 0 then Inl DivideByZero
                          else
                            (let p = (slice_len bucket2 - 1) mod slice_len bucket2;
                                 bucket3 = slice_set bucket2 p
                                             ((elems bucket2 ! p)\<lparr>hash := h, Key := key\<rparr>);
                                 m5 = m4\<lparr>buckets := (buckets m4)[bucketID := bucket3]\<rparr>
                             in Inr (call_update update m5 bucketID p False))))))"

subsection \<open>Remove\<close>

text \<open>\<^verbatim>\<open>copy(bucket[pos:], bucket[pos+1:])\<close>: the cells after \<open>p\<close> move one place down;
  the last cell keeps its old content.\<close>

fun slice_shift :: "'e slice \<Rightarrow> nat \<Rightarrow> 'e slice" where
  "slice_shift NilSlice p = NilSlice"
| "slice_shift (Slice l s) p = Slice (take p l @ copy_cells (drop p l) (drop (Suc p) l)) s"

text \<open>The unexported \<^verbatim>\<open>remove\<close> (the name \<open>remove\<close> is taken by a constant of HOL).\<close>

definition remove_slot :: "('k::zero, 'v::zero) GMap \<Rightarrow> nat \<Rightarrow> nat
    \<Rightarrow> panic + (('k, 'v) MapElement \<times> ('k, 'v) GMap)" where
  "remove_slot m bucketID p0 =
     (let m1 = m\<lparr>len := len m - 1\<rparr> in
      if length (buckets m1) = 0 then Inl DivideByZero
      else
        let bid = bucketID mod length (buckets m1);
            bucket = buckets m1 ! bid
        in if slice_len bucket = 0 then Inl DivideByZero
           else
             let p = p0 mod slice_len bucket;
                 elem = elems bucket ! p;
                 bucket1 = slice_shift bucket p;
                 bucket2 = slice_set bucket1 (slice_len bucket1 - 1) zeroElem;
                 bucket3 = slice_shrink bucket2
             in if slice_len bucket3 = 0 then
                  let m2 = freeElemSlice m1 bucket3
                  in Inr (elem, m2\<lparr>buckets := (buckets m2)[bid := NilSlice]\<rparr>)
                else if slice_len bucket3 + 1 < slice_cap bucket3 div 3 then
                  let newBucket = make_slice (slice_cap bucket3 div 2);
                      newBucket1 = copy_slice newBucket bucket3
                  in Inr (elem, m1\<lparr>buckets := (buckets m1)[bid := newBucket1]\<rparr>)
                else Inr (elem, m1\<lparr>buckets := (buckets m1)[bid := bucket3]\<rparr>))"

definition Remove :: "('k::zero, 'v::zero) GMap \<Rightarrow> 'k
    \<Rightarrow> panic + ((('k, 'v) MapElement \<times> bool) \<times> ('k, 'v) GMap)" where
  "Remove m key =
     (let h = m_hash m key in
      if length (buckets m) = 0 then Inl DivideByZero
      else
        let bucketID = unat h mod length (buckets m);
            bucket = buckets m ! bucketID
        in case probe (m_equal m) h key bucket of
             None \<Rightarrow> Inr ((zeroElem, False), m)
           | Some p \<Rightarrow>
               (case remove_slot m bucketID p of
                  Inl e \<Rightarrow> Inl e
                | Inr (elem, m') \<Rightarrow> Inr ((elem, True), m')))"

subsection \<open>The iterator\<close>

text \<open>The iterator's pointer to the table is the table passed with it.\<close>

definition Iterator :: "('k, 'v) GMap \<Rightarrow> MapIterator" where
  "Iterator m = \<lparr>mapPos = 0, pos = 0, ready = False\<rparr>"

text \<open>The loop of \<^verbatim>\<open>Next\<close>.\<close>

function next_scan :: "('k, 'v) GMap \<Rightarrow> MapIterator \<Rightarrow> bool \<times> MapIterator" where
  "next_scan m it =
     (if mapPos it < length (buckets m) then
        if pos it < slice_len (buckets m ! mapPos it) then (True, it\<lparr>ready := True\<rparr>)
        else next_scan m (it\<lparr>mapPos := mapPos it + 1, pos := 0\<rparr>)
      else (False, it\<lparr>ready := False\<rparr>))"
  by pat_completeness auto
termination
  by (relation "measure (\<lambda>(m, it). length (buckets m) - mapPos it)") auto

declare next_scan.simps [simp del]

definition Next :: "('k, 'v) GMap \<Rightarrow> MapIterator \<Rightarrow> bool \<times> MapIterator" where
  "Next m it = next_scan m (if ready it then it\<lparr>pos := pos it + 1\<rparr> else it)"

definition Cur :: "('k, 'v) GMap \<Rightarrow> MapIterator \<Rightarrow> panic + ('k, 'v) MapElement" where
  "Cur m it =
     (if \<not> ready it \<or> mapPos it \<ge> length (buckets m)
         \<or> pos it \<ge> slice_len (buckets m ! mapPos it)
      then Inl IteratorPositionNotSet
      else Inr (elems (buckets m ! mapPos it) ! pos it))"

text \<open>\<^verbatim>\<open>MapIterator.Remove\<close>.\<close>

definition it_Remove :: "('k::zero, 'v::zero) GMap \<Rightarrow> MapIterator
    \<Rightarrow> panic + (('k, 'v) MapElement \<times> MapIterator \<times> ('k, 'v) GMap)" where
  "it_Remove m it =
     (if \<not> ready it then Inl IteratorPositionNotSet
      else
        let it1 = it\<lparr>ready := False\<rparr>
        in case remove_slot m (mapPos it1) (pos it1) of
             Inl e \<Rightarrow> Inl e
           | Inr (elem, m') \<Rightarrow> Inr (elem, it1, m'))"

definition Reset :: "MapIterator \<Rightarrow> MapIterator" where
  "Reset it = it\<lparr>mapPos := 0, pos := 0, ready := False\<rparr>"

subsection \<open>Sequences of operations\<close>

text \<open>The operations a client may call on a table, and a run of them from a table
  (or from the result of the constructor). A panic ends the run.\<close>

datatype ('k, 'v) op =
    OpPut 'k 'v
  | OpUpsert 'k "('k, 'v) MapElement \<Rightarrow> bool \<Rightarrow> ('k, 'v) MapElement"
  | OpRemove 'k
  | OpClear

fun apply_op :: "(nat \<Rightarrow> nat) \<Rightarrow> ('k::zero, 'v::zero) GMap \<Rightarrow> ('k, 'v) op
    \<Rightarrow> panic + ('k, 'v) GMap" where
  "apply_op growcap m (OpPut k v) = Put growcap m k v"
| "apply_op growcap m (OpUpsert k u) = map_sum id snd (Upsert growcap m k u)"
| "apply_op growcap m (OpRemove k) = map_sum id snd (Remove m k)"
| "apply_op growcap m OpClear = Inr (Clear m)"

fun run :: "(nat \<Rightarrow> nat) \<Rightarrow> panic + ('k::zero, 'v::zero) GMap \<Rightarrow> ('k, 'v) op list
    \<Rightarrow> panic + ('k, 'v) GMap" where
  "run growcap r [] = r"
| "run growcap (Inl e) (x # xs) = Inl e"
| "run growcap (Inr m) (x # xs) = run growcap (apply_op growcap m x) xs"

text \<open>
  The client loop \<^verbatim>\<open>for it.Next() { it.Remove() }\<close>, with the keys of the removed
  elements in the order of the visits. The loop is bounded by fuel; \<open>None\<close> is a run
  that is not over when the fuel is.
\<close>

fun drain :: "nat \<Rightarrow> ('k::zero, 'v::zero) GMap \<Rightarrow> MapIterator \<Rightarrow> 'k list
    \<Rightarrow> (panic + ('k list \<times> ('k, 'v) GMap)) option" where
  "drain 0 m it seen = None"
| "drain (Suc n) m it seen =
     (case Next m it of
        (False, it1) \<Rightarrow> Some (Inr (seen, m))
      | (True, it1) \<Rightarrow>
          (case it_Remove m it1 of
             Inl e \<Rightarrow> Some (Inl e)
           | Inr (elem, it2, m') \<Rightarrow> drain n m' it2 (seen @ [Key elem])))"

subsection \<open>The state of the spare cells\<close>

text \<open>
  The cells between the length and the capacity of every bucket are zero, and every
  buffer of the free list has length 0 and zero cells. The constructor establishes this
  and every operation keeps it.
\<close>

definition zero_cells :: "('k::zero, 'v::zero) MapElement list \<Rightarrow> bool" where
  "zero_cells cs = (\<forall>c \<in> set cs. c = zeroElem)"

definition spare_zero :: "('k::zero, 'v::zero) GMap \<Rightarrow> bool" where
  "spare_zero m =
     ((\<forall>b \<in> set (buckets m). zero_cells (spare b))
      \<and> (\<forall>s \<in> set (freeSlices m). elems s = [] \<and> zero_cells (spare s)))"

subsection \<open>Concrete data for the examples\<close>

text \<open>Keys and values are natural numbers, compared with \<open>=\<close>.\<close>

definition nat_equal :: "nat \<Rightarrow> nat \<Rightarrow> bool" where
  "nat_equal k1 k2 = (k1 = k2)"

definition hash_id :: "nat \<Rightarrow> 64 word" where
  "hash_id k = of_nat k"

definition hash_odd :: "nat \<Rightarrow> 64 word" where
  "hash_odd k = of_nat (2 * k + 1)"

definition double :: "nat \<Rightarrow> nat" where
  "double c = 2 * c"

definition set_value :: "nat \<Rightarrow> (nat, nat) MapElement \<Rightarrow> bool \<Rightarrow> (nat, nat) MapElement" where
  "set_value v e exists = e\<lparr>Value := v\<rparr>"

text \<open>One bucket, nine keys that all land in it, put in by Upsert.\<close>

definition nine_keys :: "panic + (nat, nat) GMap" where
  "nine_keys = run double (NewMap nat_equal hash_id [1])
     [OpUpsert 1 (set_value 10), OpUpsert 2 (set_value 20), OpUpsert 3 (set_value 30),
      OpUpsert 4 (set_value 40), OpUpsert 5 (set_value 50), OpUpsert 6 (set_value 60),
      OpUpsert 7 (set_value 70), OpUpsert 8 (set_value 80), OpUpsert 9 (set_value 90)]"

text \<open>The table after \<^verbatim>\<open>NewMap(eq, hash, 1)\<close> and one Upsert of key 1.\<close>

definition one_entry :: "(nat, nat) GMap" where
  "one_entry = \<lparr>m_equal = nat_equal, m_hash = hash_id,
                 buckets = [Slice [\<lparr>Key = 1, Value = 10, hash = 1\<rparr>] []],
                 len = 1, allocBuffer = 1023, freeSlices = []\<rparr>"

definition at_first :: MapIterator where
  "at_first = \<lparr>mapPos = 0, pos = 0, ready = True\<rparr>"

text \<open>Two buckets; the keys 1 and 2 both hash to bucket 1, and the zero key hashes to 1.\<close>

definition put_collision :: "panic + (nat, nat) GMap" where
  "put_collision = run double (NewMap nat_equal hash_odd [2]) [OpPut 1 10, OpPut 2 20]"

text \<open>One bucket; key 2 is put twice after key 1.\<close>

definition put_once :: "panic + (nat, nat) GMap" where
  "put_once = run double (NewMap nat_equal hash_id [1]) [OpPut 1 10, OpPut 2 20]"

definition put_twice :: "panic + (nat, nat) GMap" where
  "put_twice = run double put_once [OpPut 2 30]"

text \<open>What the examples look at: the counter with the length and the capacity of every
  chain, and the keys of a chain.\<close>

definition shape :: "('k, 'v) GMap \<Rightarrow> int \<times> (nat \<times> nat) list" where
  "shape m = (Len m, map (\<lambda>b. (slice_len b, slice_cap b)) (buckets m))"

definition chain_keys :: "('k, 'v) GMap \<Rightarrow> nat \<Rightarrow> 'k list" where
  "chain_keys m b = map Key (elems (buckets m ! b))"

text \<open>
  Two buckets. Key 0 is put in bucket 0; the keys 1 and 3 go to bucket 1 and are removed
  again, which frees the chain of capacity 4. \<open>two_free\<close> is the table this leaves,
  written out.
\<close>

definition freed_four :: "panic + (nat, nat) GMap" where
  "freed_four = run double (NewMap nat_equal hash_id [2])
     [OpPut 0 5, OpUpsert 1 (set_value 10), OpUpsert 3 (set_value 30), OpRemove 1, OpRemove 3]"

definition two_free :: "(nat, nat) GMap" where
  "two_free = \<lparr>m_equal = nat_equal, m_hash = hash_id,
                buckets = [Slice [\<lparr>Key = 0, Value = 5, hash = 0\<rparr>] [], NilSlice],
                len = 1, allocBuffer = 1018,
                freeSlices = [Slice [] [zeroElem],
                              Slice [] [zeroElem, zeroElem, zeroElem, zeroElem]]\<rparr>"

text \<open>The capacities of the free list, and what a request to the allocator gives: the
  length and the capacity of the buffer, the free list and the slab left.\<close>

definition free_caps :: "('k, 'v) GMap \<Rightarrow> nat list" where
  "free_caps m = map slice_cap (freeSlices m)"

definition request :: "nat \<Rightarrow> nat \<Rightarrow> ('k::zero, 'v::zero) GMap
    \<Rightarrow> panic + nat \<times> nat \<times> nat list \<times> nat" where
  "request sz capacity m =
     map_sum id (\<lambda>(b, m'). (slice_len b, slice_cap b, free_caps m', allocBuffer m'))
       (newElemSlice m sz capacity)"

text \<open>The content of a table without its two functions.\<close>

definition elem_view :: "('k, 'v) MapElement \<Rightarrow> 'k \<times> 'v \<times> 64 word" where
  "elem_view e = (Key e, Value e, hash e)"

definition slice_view :: "('k, 'v) bucket
    \<Rightarrow> bool \<times> ('k \<times> 'v \<times> 64 word) list \<times> ('k \<times> 'v \<times> 64 word) list" where
  "slice_view b = (is_nil b, map elem_view (elems b), map elem_view (spare b))"

definition table_view :: "('k, 'v) GMap
    \<Rightarrow> int \<times> (bool \<times> ('k \<times> 'v \<times> 64 word) list \<times> ('k \<times> 'v \<times> 64 word) list) list
      \<times> nat \<times> (bool \<times> ('k \<times> 'v \<times> 64 word) list \<times> ('k \<times> 'v \<times> 64 word) list) list" where
  "table_view m =
     (len m, map slice_view (buckets m), allocBuffer m, map slice_view (freeSlices m))"

text \<open>
  What the specification means by a key that a chain holds: some slot of the chain has
  the hash of the key and a key equal to it. This is stated on the chain, apart from
  the search of the code.
\<close>

definition slot_matches :: "('k \<Rightarrow> 'k \<Rightarrow> bool) \<Rightarrow> 64 word \<Rightarrow> 'k \<Rightarrow> ('k, 'v) MapElement \<Rightarrow> bool" where
  "slot_matches eq h key e = (hash e = h \<and> eq (Key e) key)"

definition chain_has :: "('k \<Rightarrow> 'k \<Rightarrow> bool) \<Rightarrow> 64 word \<Rightarrow> 'k \<Rightarrow> ('k, 'v) MapElement list \<Rightarrow> bool" where
  "chain_has eq h key es = list_ex (slot_matches eq h key) es"

text \<open>What a call of Upsert shows: the calls of the callback (the element seen, the
  flag) and the counter afterwards.\<close>

definition upsert_view :: "panic + (('k, 'v) MapElement \<times> bool) list \<times> ('k, 'v) GMap
    \<Rightarrow> panic + (('k \<times> 'v \<times> 64 word) \<times> bool) list \<times> int" where
  "upsert_view r = map_sum id (\<lambda>(calls, m'). (map (\<lambda>(e, ex). (elem_view e, ex)) calls, Len m')) r"

section \<open>Properties\<close>

subsection \<open>Misuse and the empty bucket array\<close>

lemma next_scan_ready: "next_scan m it = (ok, it') \<Longrightarrow> ready it' = ok"
proof (induction m it rule: next_scan.induct)
  case (1 m it)
  then show ?case
    by (subst (asm) (2) next_scan.simps) (auto split: if_splits)
qed

text \<open>
  C7. Cur and Remove panic on an iterator that is not ready; a new iterator is not
  ready, nor is one that Next has found exhausted, nor one that has just removed; and the
  constructor panics on more than one bucket count.
\<close>

theorem misuse_panics:
  fixes m :: "('k::zero, 'v::zero) GMap"
  shows "(\<not> ready it \<longrightarrow> Cur m it = Inl IteratorPositionNotSet
                        \<and> it_Remove m it = Inl IteratorPositionNotSet)
       \<and> \<not> ready (Iterator m)
       \<and> (Next m it1 = (False, it1') \<longrightarrow> \<not> ready it1')
       \<and> (it_Remove m it2 = Inr (elem, it2', m') \<longrightarrow> \<not> ready it2')
       \<and> (length bucketSizeOpt > 1 \<longrightarrow>
            (NewMap eq h bucketSizeOpt :: panic + ('k, 'v) GMap) = Inl TooManyArguments)"
proof -
  have "Next m it1 = (False, it1') \<Longrightarrow> \<not> ready it1'"
    unfolding Next_def using next_scan_ready by blast
  moreover have "it_Remove m it2 = Inr (elem, it2', m') \<Longrightarrow> \<not> ready it2'"
    by (auto simp: it_Remove_def Let_def split: if_splits sum.splits)
  ultimately show ?thesis
    by (simp add: Cur_def it_Remove_def Iterator_def NewMap_def)
qed

theorem misuse_panics_witness:
  "Cur one_entry (Iterator one_entry) = Inl IteratorPositionNotSet
   \<and> it_Remove one_entry (Iterator one_entry) = Inl IteratorPositionNotSet
   \<and> Next one_entry at_first = (False, \<lparr>mapPos = 1, pos = 0, ready = False\<rparr>)
   \<and> Cur one_entry \<lparr>mapPos = 1, pos = 0, ready = False\<rparr> = Inl IteratorPositionNotSet
   \<and> map_sum id (\<lambda>(e, it, m). (Key e, ready it, Cur m it)) (it_Remove one_entry at_first)
       = Inr (1, False, Inl IteratorPositionNotSet)
   \<and> (NewMap nat_equal hash_id [4, 8] :: panic + (nat, nat) GMap) = Inl TooManyArguments"
proof -
  let ?end = "\<lparr>mapPos = 1, pos = 0, ready = False\<rparr>"
  have n: "Next one_entry at_first = (False, ?end)"
    by (simp add: Next_def one_entry_def at_first_def next_scan.simps slice_len_def)
  obtain e it' m' where r: "it_Remove one_entry at_first = Inr (e, it', m')"
    and k: "Key e = 1"
    by (simp add: it_Remove_def remove_slot_def one_entry_def at_first_def slice_len_def
        slice_cap_def copy_cells_def freeElemSlice_def maxFreeSlices_def Let_def)
  have a: "\<not> ready (Iterator one_entry)"
    by (simp add: Iterator_def)
  have l: "length [4, 8 :: int] > 1"
    by simp
  have w: "\<not> ready it'" "\<not> ready ?end"
    using misuse_panics [of "Iterator one_entry" one_entry at_first ?end at_first e it' m'
        "[4, 8]" nat_equal hash_id] n r by simp_all
  have "Cur m' it' = Inl IteratorPositionNotSet"
    using misuse_panics [of it' m'] w by simp
  moreover have "Cur one_entry ?end = Inl IteratorPositionNotSet"
    using misuse_panics [of ?end one_entry] w by simp
  ultimately show ?thesis
    using misuse_panics [of "Iterator one_entry" one_entry at_first ?end at_first e it' m'
        "[4, 8]" nat_equal hash_id] a n r k l w by simp
qed

text \<open>
  C9. The constructor accepts a bucket count of 0, and on the table it returns Get, Put,
  Upsert and Remove all panic with a division by zero, for every key and argument.
\<close>

theorem zero_buckets_panic:
  "\<exists>m :: ('k::zero, 'v::zero) GMap.
     NewMap eq h [0] = Inr m
     \<and> Get m key = Inl DivideByZero
     \<and> Put growcap m key val = Inl DivideByZero
     \<and> Upsert growcap m key update = Inl DivideByZero
     \<and> Remove m key = Inl DivideByZero"
  by (simp add: NewMap_def Get_def Put_def Upsert_def Remove_def)

subsection \<open>Get\<close>

lemma Get_returns: "buckets m \<noteq> [] \<Longrightarrow> \<exists>r. Get m key = Inr (r, m)"
  by (auto simp: Get_def Let_def split: if_splits option.splits)

text \<open>
  C10. When Get returns, the table it leaves is the table it was given: counter, bucket
  array, chains, slab and free list.
\<close>

theorem Get_frame: "Get m key = Inr (r, m') \<Longrightarrow> m' = m"
  by (auto simp: Get_def Let_def split: if_splits option.splits)

theorem Get_frame_witness:
  "Get one_entry 1 = Inr ((10, True), one_entry) \<and> Get one_entry 2 = Inr ((0, False), one_entry)"
proof -
  obtain r1 m1 where g1: "Get one_entry 1 = Inr (r1, m1)" and r1: "r1 = (10, True)"
    by (simp add: Get_def one_entry_def probe_def slice_len_def hash_id_def nat_equal_def)
  obtain r2 m2 where g2: "Get one_entry 2 = Inr (r2, m2)" and r2: "r2 = (0, False)"
    by (simp add: Get_def one_entry_def probe_def slice_len_def hash_id_def nat_equal_def)
  show ?thesis
    using Get_frame [OF g1] Get_frame [OF g2] g1 g2 r1 r2 by simp
qed

subsection \<open>The shrink in remove\<close>

text \<open>
  \<^verbatim>\<open>make([]MapElement[K, V], cap(bucket)/2)\<close> makes a slice of length \<open>cap/2\<close>, not of
  capacity \<open>cap/2\<close> and the length of the chain. The chain that remove stores after a
  shrink is the remaining entries followed by zero entries, up to the length \<open>cap/2\<close>.
\<close>

lemma drop_last: "l \<noteq> [] \<Longrightarrow> drop (length l - 1) l = [last l]"
  by (cases l rule: rev_cases) simp_all

lemma shift_cells:
  assumes "p < length l"
  shows "take p l @ copy_cells (drop p l) (drop (Suc p) l) = take p l @ drop (Suc p) l @ [last l]"
proof -
  have n: "min (length l - p) (length l - Suc p) = length l - Suc p"
    by simp
  have "length l - Suc p + p = length l - 1"
    using assms by simp
  moreover have "l \<noteq> []"
    using assms by auto
  ultimately have "drop (length l - Suc p) (drop p l) = [last l]"
    using drop_last [of l] by (simp only: drop_drop) simp
  then show ?thesis
    by (simp add: copy_cells_def n)
qed

lemma remove_cells:
  assumes "p < length l"
  shows "butlast ((take p l @ drop (Suc p) l @ [last l])[length l - 1 := z]) = take p l @ drop (Suc p) l"
    and "last ((take p l @ drop (Suc p) l @ [last l])[length l - 1 := z]) = z"
proof -
  let ?r = "take p l @ drop (Suc p) l"
  have n: "length ?r = length l - 1"
    using assms by simp
  have "(?r @ [last l])[length ?r := z] = ?r @ [z]"
    by (rule list_update_length)
  then have "(take p l @ drop (Suc p) l @ [last l])[length l - 1 := z] = ?r @ [z]"
    using n by simp
  then show "butlast ((take p l @ drop (Suc p) l @ [last l])[length l - 1 := z]) = ?r"
    and "last ((take p l @ drop (Suc p) l @ [last l])[length l - 1 := z]) = z"
    by (simp_all only: butlast_snoc last_snoc)
qed

lemma copy_cells_pad:
  "length r \<le> k \<Longrightarrow> copy_cells (replicate k z) r = r @ replicate (k - length r) z"
  by (simp add: copy_cells_def min_def)

lemma remove_cells_slice:
  fixes l :: "('k::zero, 'v::zero) MapElement list"
  assumes p: "p < length l"
  shows "slice_shrink (slice_set (slice_shift (Slice l s) p)
              (slice_len (slice_shift (Slice l s) p) - 1) zeroElem)
         = Slice (take p l @ drop (Suc p) l) (zeroElem # s)"
proof -
  have n: "length (take p l @ drop (Suc p) l @ [last l]) = length l"
    using p by simp
  have ne: "(take p l @ drop (Suc p) l @ [last l])[length l - 1 := zeroElem] \<noteq> []"
    using p by simp
  show ?thesis
    unfolding slice_shift.simps shift_cells [OF p] slice_len_def elems.simps n slice_set.simps
      slice_shrink.simps
    using ne remove_cells [OF p, of zeroElem] by simp
qed

text \<open>
  Whenever remove takes the shrink branch (the chain \<open>l\<close> keeps an entry, and its
  length, the remaining length plus one, is below a third of the capacity), the chain it
  stores is the remaining entries in their order followed by at least one zero entry.
\<close>

lemma remove_slot_shrink:
  fixes m :: "('k::zero, 'v::zero) GMap"
  assumes "buckets m \<noteq> []"
    and "buckets m ! (bucketID mod length (buckets m)) = Slice l s"
    and "2 \<le> length l"
    and "length l < (length l + length s) div 3"
  shows "\<exists>m'. remove_slot m bucketID p0 = Inr (l ! (p0 mod length l), m')
           \<and> Len m' = Len m - 1
           \<and> elems (buckets m' ! (bucketID mod length (buckets m)))
               = take (p0 mod length l) l @ drop (Suc (p0 mod length l)) l
                 @ replicate ((length l + length s) div 2 - (length l - 1)) zeroElem
           \<and> length l - 1 < (length l + length s) div 2"
proof -
  let ?bid = "bucketID mod length (buckets m)"
  let ?p = "p0 mod length l"
  let ?k = "(length l + length s) div 2"
  define r where "r = take ?p l @ drop (Suc ?p) l"
  have bid: "?bid < length (buckets m)"
    using assms(1) by simp
  have p: "?p < length l"
    using assms(3) by (intro mod_less_divisor) auto
  have n: "length r = length l - 1"
    using p by (simp add: r_def)
  have k: "length l - 1 < ?k"
    using assms(3,4) by arith
  have b3: "slice_shrink (slice_set (slice_shift (Slice l s) ?p)
              (slice_len (slice_shift (Slice l s) ?p) - 1) zeroElem) = Slice r (zeroElem # s)"
    using remove_cells_slice [OF p] by (simp only: r_def)
  have c: "copy_cells (replicate ?k zeroElem) r
      = r @ replicate (?k - (length l - 1)) (zeroElem :: ('k, 'v) MapElement)"
    using copy_cells_pad [of r ?k] n k by simp
  have bm: "buckets (m\<lparr>len := len m - 1\<rparr>) = buckets m"
    by simp
  have sl: "slice_len (Slice l s) = length l"
    by (simp add: slice_len_def)
  have r0: "l \<noteq> []"
    using assms(3) by auto
  have l3: "slice_len (Slice r (zeroElem # s)) \<noteq> 0"
    "Suc (slice_len (Slice r (zeroElem # s))) < slice_cap (Slice r (zeroElem # s)) div 3"
    "slice_cap (Slice r (zeroElem # s)) div 2 = ?k"
    using n assms(3,4) by (simp_all add: slice_len_def slice_cap_def)
  have "remove_slot m bucketID p0 =
      Inr (l ! ?p, m\<lparr>len := len m - 1, buckets := (buckets m)
             [?bid := Slice (r @ replicate (?k - (length l - 1)) zeroElem) []]\<rparr>)"
    unfolding remove_slot_def Let_def
    apply (simp only: bm assms(2) sl b3)
    apply (simp add: assms(1) l3 c r0 make_slice_def)
    done
  then show ?thesis
    using bid k by (simp add: Len_def r_def)
qed

text \<open>
  C1. The counter differs from the sum of the chain lengths. Nine keys are put in one
  bucket by Upsert and six are removed: \<open>Len\<close> is 3 and the one chain has length 8.
\<close>

theorem Len_not_sum_of_chain_lengths:
  "map_sum id shape
     (run double nine_keys
        [OpRemove 1, OpRemove 2, OpRemove 3, OpRemove 4, OpRemove 5, OpRemove 6])
   = Inr (3, [(8, 8)])"
  by code_simp

text \<open>
  C2. A chain of length 4 and capacity 16 holds the keys 6, 7, 8, 9. Remove of key 6
  leaves 3 entries and \<open>3 + 1 < 16 div 3\<close>, so the chain is reallocated: the new chain
  has length 8, the three remaining keys in their order and then five zero entries.
\<close>

theorem shrink_pads_chain:
  "map_sum id (\<lambda>m. (shape m, chain_keys m 0))
     (run double nine_keys [OpRemove 1, OpRemove 2, OpRemove 3, OpRemove 4, OpRemove 5])
   = Inr ((4, [(4, 16)]), [6, 7, 8, 9])
   \<and> map_sum id (\<lambda>m. (shape m, chain_keys m 0))
     (run double nine_keys
        [OpRemove 1, OpRemove 2, OpRemove 3, OpRemove 4, OpRemove 5, OpRemove 6])
   = Inr ((3, [(8, 8)]), [7, 8, 9, 0, 0, 0, 0, 0])"
  by code_simp

text \<open>
  C3. A table holds nine entries in one chain. The loop of Next and Remove makes 14
  successful calls of Next, not 9: after the nine keys it visits five zero entries, and
  it ends with \<open>Len\<close> at \<open>-5\<close>.
\<close>

theorem drain_visits_padding:
  "map_sum id shape nine_keys = Inr (9, [(9, 16)])
   \<and> map_sum id (\<lambda>m. map_option (map_sum id (\<lambda>(seen, m'). (seen, Len m')))
                     (drain 20 m (Iterator m) [])) nine_keys
     = Inr (Some (Inr ([1, 2, 3, 4, 5, 6, 7, 8, 9, 0, 0, 0, 0, 0], - 5)))"
  by code_simp

subsection \<open>Put into a full chain shorter than 3\<close>

text \<open>
  Where the chain is full and shorter than 3, Put allocates a chain one longer, copies
  the old entries and stores it; it does not write the new entry, as Upsert does after
  the same step. The new last slot keeps the zero entry of the fresh region.

  C5. Two buckets, Put of key 1 and of key 2, both with a hash of bucket 1. Each row
  is a slot of chain 1: key, cached hash, hash of the key, cached hash modulo 2. In
  slot 1 the hash of the key is 1 and the cached hash is 0, which is bucket 0.
\<close>

theorem Put_stores_zero_entry:
  "map_sum id
     (\<lambda>m. map (\<lambda>e. (Key e, hash e, m_hash m (Key e), unat (hash e) mod length (buckets m)))
              (elems (buckets m ! 1))) put_collision
   = Inr [(1, 3, 3, 1), (0, 0, 1, 0)]"
  by code_simp

text \<open>
  C8. One bucket that holds key 1. After \<open>Put(2, 20)\<close> the counter is 2, the chain
  holds the keys 1 and 0, and Get does not find key 2. After \<open>Put(2, 30)\<close> the counter
  is 3: the second Put of the key has added an entry.
\<close>

theorem second_Put_grows_Len:
  "map_sum id (\<lambda>m. (Len m, chain_keys m 0, map_sum id fst (Get m 2))) put_once
     = Inr (2, [1, 0], Inr (0, False))
   \<and> map_sum id (\<lambda>m. (Len m, chain_keys m 0, map_sum id fst (Get m 2))) put_twice
     = Inr (3, [1, 0, 2], Inr (30, True))"
  by code_simp

subsection \<open>Lookup\<close>

text \<open>A position that the search returns is inside the chain and holds a match.\<close>

lemma scan_Some:
  "scan eq h key es n = Some p \<Longrightarrow>
     n \<le> p \<and> p - n < length es \<and> hash (es ! (p - n)) = h \<and> eq (Key (es ! (p - n))) key"
proof (induction es arbitrary: n)
  case Nil
  then show ?case by simp
next
  case (Cons e es)
  show ?case
  proof (cases "hash e = h \<and> eq (Key e) key")
    case True
    with Cons.prems show ?thesis by auto
  next
    case False
    with Cons.prems have "scan eq h key es (Suc n) = Some p" by auto
    from Cons.IH [OF this] show ?thesis
      by (auto simp: Suc_diff_le)
  qed
qed

lemma probe_Some:
  assumes "probe eq h key b = Some p"
  shows "p < slice_len b \<and> hash (elems b ! p) = h \<and> eq (Key (elems b ! p)) key"
proof (cases "hash (elems b ! 0) = h \<and> eq (Key (elems b ! 0)) key")
  case True
  with assms show ?thesis
    by (auto simp: probe_def split: if_splits)
next
  case False
  with assms have s: "scan eq h key (drop 1 (elems b)) 1 = Some p" and l: "1 < slice_len b"
    by (auto simp: probe_def split: if_splits)
  from scan_Some [OF s] l show ?thesis
    by (auto simp: slice_len_def)
qed

text \<open>The search is complete: it finds nothing exactly when no slot of the chain
  matches, and the position it returns is the first match.\<close>

lemma scan_None_iff:
  "scan eq h key es n = None \<longleftrightarrow> \<not> chain_has eq h key es"
  by (induction es arbitrary: n) (auto simp: chain_has_def slot_matches_def)

lemma scan_first:
  "scan eq h key es n = Some p \<Longrightarrow>
     n \<le> p \<and> p - n < length es \<and> slot_matches eq h key (es ! (p - n))
     \<and> (\<forall>j < p - n. \<not> slot_matches eq h key (es ! j))"
proof (induction es arbitrary: n)
  case Nil
  then show ?case by simp
next
  case (Cons e es)
  show ?case
  proof (cases "hash e = h \<and> eq (Key e) key")
    case True
    with Cons.prems show ?thesis by (auto simp: slot_matches_def)
  next
    case False
    with Cons.prems have s: "scan eq h key es (Suc n) = Some p" by auto
    from Cons.IH [OF s] have a: "Suc n \<le> p" "p - Suc n < length es"
      "slot_matches eq h key (es ! (p - Suc n))"
      "\<forall>j < p - Suc n. \<not> slot_matches eq h key (es ! j)"
      by auto
    have d: "p - n = Suc (p - Suc n)"
      using a(1) by simp
    have "\<forall>j < p - n. \<not> slot_matches eq h key ((e # es) ! j)"
    proof (intro allI impI)
      fix j assume j: "j < p - n"
      show "\<not> slot_matches eq h key ((e # es) ! j)"
      proof (cases j)
        case 0
        with False show ?thesis by (simp add: slot_matches_def)
      next
        case (Suc i)
        with j d a(4) show ?thesis by simp
      qed
    qed
    with a d show ?thesis by simp
  qed
qed

lemma probe_None_iff:
  "probe eq h key b = None \<longleftrightarrow> \<not> chain_has eq h key (elems b)"
proof (cases "elems b")
  case Nil
  then show ?thesis
    by (simp add: probe_def slice_len_def chain_has_def)
next
  case (Cons e es)
  then show ?thesis
    using scan_None_iff [of eq h key es 1]
    by (cases es) (auto simp: probe_def slice_len_def chain_has_def slot_matches_def)
qed

lemma probe_first:
  assumes "probe eq h key b = Some p"
  shows "p < slice_len b \<and> slot_matches eq h key (elems b ! p)
         \<and> (\<forall>j < p. \<not> slot_matches eq h key (elems b ! j))"
proof (cases "hash (elems b ! 0) = h \<and> eq (Key (elems b ! 0)) key")
  case True
  with assms show ?thesis
    by (auto simp: probe_def slot_matches_def split: if_splits)
next
  case False
  with assms have s: "scan eq h key (drop 1 (elems b)) 1 = Some p" and l: "1 < slice_len b"
    by (auto simp: probe_def split: if_splits)
  from scan_first [OF s] have a: "1 \<le> p" "p - 1 < length (drop 1 (elems b))"
    "slot_matches eq h key (drop 1 (elems b) ! (p - 1))"
    "\<forall>j < p - 1. \<not> slot_matches eq h key (drop 1 (elems b) ! j)"
    by auto
  have "\<forall>j < p. \<not> slot_matches eq h key (elems b ! j)"
  proof (intro allI impI)
    fix j assume j: "j < p"
    show "\<not> slot_matches eq h key (elems b ! j)"
    proof (cases j)
      case 0
      with False show ?thesis by (simp add: slot_matches_def)
    next
      case (Suc i)
      with j a(1) have "i < p - 1" by simp
      with a(4) have "\<not> slot_matches eq h key (drop 1 (elems b) ! i)" by simp
      with Suc l show ?thesis by (simp add: slice_len_def)
    qed
  qed
  with a l show ?thesis
    by (auto simp: slice_len_def)
qed

subsection \<open>The allocator\<close>

text \<open>Where the spare cells are zero, a request of positive size is served from the
  slab and a request of size 0 gives an empty buffer of zero cells.\<close>

lemma free_top_empty:
  "spare_zero m \<Longrightarrow> 0 < length (freeSlices m) \<Longrightarrow> slice_len (last (freeSlices m)) = 0"
  by (auto simp: spare_zero_def slice_len_def)

lemma newElemSlice_fresh:
  assumes "spare_zero m" "0 < sz" "sz \<le> capacity" "capacity \<le> 1024"
  shows "newElemSlice m sz capacity =
     Inr (Slice (replicate sz zeroElem) (replicate (capacity - sz) zeroElem),
          m\<lparr>allocBuffer := (if allocBuffer m < capacity then 1024 else allocBuffer m) - capacity\<rparr>)"
  using assms free_top_empty [of m]
  by (auto simp: newElemSlice_def Let_def)

lemma newElemSlice_empty:
  assumes "spare_zero m"
  shows "\<exists>b m'. newElemSlice m 0 1 = Inr (b, m') \<and> elems b = [] \<and> zero_cells (spare b)
           \<and> buckets m' = buckets m \<and> len m' = len m \<and> spare_zero m'"
proof (cases "0 < length (freeSlices m)")
  case True
  then have "last (freeSlices m) \<in> set (freeSlices m)" by simp
  moreover have "set (butlast (freeSlices m)) \<subseteq> set (freeSlices m)"
    by (auto dest: in_set_butlastD)
  ultimately show ?thesis
    using assms True by (auto simp: newElemSlice_def spare_zero_def)
next
  case False
  then show ?thesis
    using assms by (auto simp: newElemSlice_def spare_zero_def zero_cells_def Let_def)
qed

subsection \<open>The spare cells stay zero\<close>

text \<open>
  The steps of Upsert and Put that make room for one more entry, then each operation,
  then a run from the constructor. For Upsert the lemmas also give the table it returns,
  once for a key that the lookup finds and once for one that it does not.
\<close>

lemma zero_cells_simps [simp]:
  "zero_cells []" "zero_cells (c # cs) = (c = zeroElem \<and> zero_cells cs)"
  "zero_cells (cs @ ds) = (zero_cells cs \<and> zero_cells ds)"
  "zero_cells (replicate n zeroElem)"
  "zero_cells (map (\<lambda>e. zeroElem) es)"
  by (auto simp: zero_cells_def)

lemma copy_cells_fresh: "copy_cells (replicate (Suc (length l)) z) l = l @ [z]"
proof -
  have "drop (length l) (replicate (Suc (length l)) z) = [z]"
    by (simp only: drop_replicate) simp
  then show ?thesis
    by (simp add: copy_cells_def del: replicate_Suc)
qed

lemma freeElemSlice_spare_zero:
  assumes "spare_zero m" "zero_cells (spare b)"
  shows "spare_zero (freeElemSlice m b)"
    and "buckets (freeElemSlice m b) = buckets m"
    and "len (freeElemSlice m b) = len m"
  using assms
  by (auto simp: freeElemSlice_def spare_zero_def slice_len_def Let_def)

lemma upsert_grow:
  fixes m2 :: "('k::zero, 'v::zero) GMap"
  assumes "spare_zero m2" "zero_cells (spare bucket1)"
  shows "\<exists>bucket2 m4.
     (if slice_len bucket1 + 1 \<le> slice_cap bucket1
      then Inr (slice_extend bucket1, m2)
      else if slice_len bucket1 < 3 then
        (case newElemSlice m2 (slice_len bucket1 + 1) 4 of
           Inl e \<Rightarrow> Inl e
         | Inr (newBucket, m3) \<Rightarrow>
             Inr (copy_slice newBucket bucket1, freeElemSlice m3 bucket1))
      else Inr (append_slice growcap bucket1 zeroElem, m2)) = Inr (bucket2, m4)
     \<and> elems bucket2 = elems bucket1 @ [zeroElem] \<and> zero_cells (spare bucket2)
     \<and> buckets m4 = buckets m2 \<and> len m4 = len m2 \<and> spare_zero m4"
proof (cases "slice_len bucket1 + 1 \<le> slice_cap bucket1")
  case True
  then obtain l c s where b: "bucket1 = Slice l (c # s)"
    by (cases bucket1; cases "spare bucket1") (auto simp: slice_len_def slice_cap_def)
  with assms True show ?thesis by simp
next
  case full: False
  show ?thesis
  proof (cases "slice_len bucket1 < 3")
    case True
    let ?n = "slice_len bucket1"
    let ?m3 = "m2\<lparr>allocBuffer := (if allocBuffer m2 < 4 then 1024 else allocBuffer m2) - 4\<rparr>"
    have n: "newElemSlice m2 (?n + 1) 4 =
        Inr (Slice (replicate (?n + 1) zeroElem) (replicate (4 - (?n + 1)) zeroElem), ?m3)"
      using newElemSlice_fresh [OF assms(1), of "?n + 1" 4] True by simp
    have m3: "spare_zero ?m3"
      using assms(1) by (simp add: spare_zero_def)
    have "copy_cells (replicate (?n + 1) zeroElem) (elems bucket1) = elems bucket1 @ [zeroElem]"
      using copy_cells_fresh [of "elems bucket1"] by (simp add: slice_len_def)
    then show ?thesis
      using full True n freeElemSlice_spare_zero [OF m3 assms(2)] by simp
  next
    case False
    from full have "spare bucket1 = []"
      by (cases "spare bucket1") (simp_all add: slice_len_def slice_cap_def)
    then have "append_slice growcap bucket1 zeroElem =
        Slice (elems bucket1 @ [zeroElem])
          (replicate (growcap (slice_cap bucket1) - (slice_len bucket1 + 1)) zeroElem)"
      by (cases bucket1) auto
    with full False assms show ?thesis by simp
  qed
qed


lemma elems_slice_set [simp]: "elems (slice_set b i x) = (elems b)[i := x]"
  by (cases b) auto

lemma spare_slice_set [simp]: "spare (slice_set b i x) = spare b"
  by (cases b) auto

lemma bucket_spare_zero:
  "spare_zero m \<Longrightarrow> i < length (buckets m) \<Longrightarrow> zero_cells (spare (buckets m ! i))"
  by (simp add: spare_zero_def)

lemma upsert_first:
  fixes m :: "('k::zero, 'v::zero) GMap"
  assumes "spare_zero m" "i < length (buckets m)"
  shows "\<exists>bucket1 m2.
     (if is_nil (buckets m ! i) then newElemSlice (m\<lparr>len := len m + 1\<rparr>) 0 1
      else Inr (buckets m ! i, m\<lparr>len := len m + 1\<rparr>)) = Inr (bucket1, m2)
     \<and> elems bucket1 = elems (buckets m ! i) \<and> zero_cells (spare bucket1)
     \<and> buckets m2 = buckets m \<and> len m2 = len m + 1 \<and> spare_zero m2"
proof -
  let ?m1 = "m\<lparr>len := len m + 1\<rparr>"
  have m1: "spare_zero ?m1"
    using assms(1) by (simp add: spare_zero_def)
  show ?thesis
  proof (cases "is_nil (buckets m ! i)")
    case True
    then have "elems (buckets m ! i) = []"
      by (cases "buckets m ! i") auto
    with True newElemSlice_empty [OF m1] show ?thesis by auto
  next
    case False
    with m1 bucket_spare_zero [OF assms] show ?thesis by simp
  qed
qed

lemma spare_zero_store:
  assumes "spare_zero m4" "zero_cells (spare x)" "buckets m4 = bs"
  shows "spare_zero (m4\<lparr>buckets := bs[i := x]\<rparr>)"
  using assms by (auto simp: spare_zero_def dest!: set_update_subset_insert [THEN subsetD])

lemma Upsert_present:
  assumes "buckets m \<noteq> []"
    and "probe (m_equal m) (m_hash m key) key
           (buckets m ! (unat (m_hash m key) mod length (buckets m))) = Some p"
  shows "Upsert growcap m key update =
     Inr ([(elems (buckets m ! (unat (m_hash m key) mod length (buckets m))) ! p, True)],
          m\<lparr>buckets := (buckets m)
               [unat (m_hash m key) mod length (buckets m) :=
                  slice_set (buckets m ! (unat (m_hash m key) mod length (buckets m))) p
                    (update (elems (buckets m ! (unat (m_hash m key) mod length (buckets m))) ! p)
                       True)]\<rparr>)"
  using assms by (simp add: Upsert_def call_update_def Let_def)

lemma Upsert_absent:
  fixes m :: "('k::zero, 'v::zero) GMap"
  assumes "spare_zero m" and "buckets m \<noteq> []"
    and "probe (m_equal m) (m_hash m key) key
           (buckets m ! (unat (m_hash m key) mod length (buckets m))) = None"
  shows "\<exists>bucket2 m4.
     Upsert growcap m key update =
       Inr ([(zeroElem\<lparr>hash := m_hash m key, Key := key\<rparr>, False)],
            m4\<lparr>buckets := (buckets m)
                 [unat (m_hash m key) mod length (buckets m) :=
                    slice_set bucket2
                      (length (elems (buckets m ! (unat (m_hash m key) mod length (buckets m)))))
                      (update (zeroElem\<lparr>hash := m_hash m key, Key := key\<rparr>) False)]\<rparr>)
     \<and> elems bucket2 =
         elems (buckets m ! (unat (m_hash m key) mod length (buckets m))) @ [zeroElem]
     \<and> zero_cells (spare bucket2)
     \<and> buckets m4 = buckets m \<and> len m4 = len m + 1 \<and> spare_zero m4"
proof -
  let ?h = "m_hash m key"
  let ?bid = "unat ?h mod length (buckets m)"
  let ?b = "buckets m ! ?bid"
  have bid: "?bid < length (buckets m)"
    using assms(2) by simp
  obtain bucket1 m2 where
    f: "(if is_nil ?b then newElemSlice (m\<lparr>len := len m + 1\<rparr>) 0 1
         else Inr (?b, m\<lparr>len := len m + 1\<rparr>)) = Inr (bucket1, m2)"
    and e1: "elems bucket1 = elems ?b" and z1: "zero_cells (spare bucket1)"
    and b2: "buckets m2 = buckets m" and l2: "len m2 = len m + 1" and s2: "spare_zero m2"
    using upsert_first [OF assms(1) bid] by blast
  obtain bucket2 m4 where
    g: "(if slice_len bucket1 + 1 \<le> slice_cap bucket1
         then Inr (slice_extend bucket1, m2)
         else if slice_len bucket1 < 3 then
           (case newElemSlice m2 (slice_len bucket1 + 1) 4 of
              Inl e \<Rightarrow> Inl e
            | Inr (newBucket, m3) \<Rightarrow>
                Inr (copy_slice newBucket bucket1, freeElemSlice m3 bucket1))
         else Inr (append_slice growcap bucket1 zeroElem, m2)) = Inr (bucket2, m4)"
    and e2: "elems bucket2 = elems bucket1 @ [zeroElem]" and z2: "zero_cells (spare bucket2)"
    and b4: "buckets m4 = buckets m2" and l4: "len m4 = len m2" and s4: "spare_zero m4"
    using upsert_grow [OF s2 z1, of growcap] by blast
  have n2: "slice_len bucket2 = Suc (length (elems ?b))"
    by (simp add: slice_len_def e2 e1)
  let ?e = "(zeroElem :: ('k, 'v) MapElement)\<lparr>hash := ?h, Key := key\<rparr>"
  have s: "slice_set (slice_set bucket2 (length (elems ?b)) ?e) (length (elems ?b)) (update ?e False)
      = slice_set bucket2 (length (elems ?b)) (update ?e False)"
    by (cases bucket2) auto
  have "Upsert growcap m key update =
      Inr ([(?e, False)],
           m4\<lparr>buckets := (buckets m)
                [?bid := slice_set bucket2 (length (elems ?b)) (update ?e False)]\<rparr>)"
    unfolding Upsert_def Let_def
    apply (simp only: assms(3) option.case f g sum.case prod.case)
    apply (simp add: assms(2) bid call_update_def Let_def n2 e2 e1 b4 b2 s)
    done
  with e2 e1 z2 b4 b2 l4 l2 s4 show ?thesis by auto
qed

lemma spare_zero_Upsert:
  fixes m :: "('k::zero, 'v::zero) GMap"
  assumes "spare_zero m" and "Upsert growcap m key update = Inr (calls, m')"
  shows "spare_zero m'"
proof -
  let ?bid = "unat (m_hash m key) mod length (buckets m)"
  let ?b = "buckets m ! ?bid"
  from assms(2) have ne: "buckets m \<noteq> []"
    by (auto simp: Upsert_def)
  then have bid: "?bid < length (buckets m)" by simp
  show ?thesis
  proof (cases "probe (m_equal m) (m_hash m key) key ?b")
    case (Some p)
    have "zero_cells (spare (slice_set ?b p (update (elems ?b ! p) True)))"
      using bucket_spare_zero [OF assms(1) bid] by simp
    from spare_zero_store [OF assms(1) this refl] Upsert_present [OF ne Some, of growcap update]
      assms(2) show ?thesis by auto
  next
    case None
    from Upsert_absent [OF assms(1) ne None, of growcap update] assms(2)
    show ?thesis by (auto intro!: spare_zero_store)
  qed
qed

lemma put_grow:
  fixes m2 :: "('k::zero, 'v::zero) GMap"
  assumes "spare_zero m2" "zero_cells (spare bucket1)"
    and "(if slice_len bucket1 + 1 > slice_cap bucket1 then
            (if slice_len bucket1 < 3 then
               (case newElemSlice m2 (slice_len bucket1 + 1) 4 of
                  Inl e \<Rightarrow> Inl e
                | Inr (newBucket, m3) \<Rightarrow>
                    Inr ((freeElemSlice m3 bucket1)
                           \<lparr>buckets := (buckets (freeElemSlice m3 bucket1))
                              [i := copy_slice newBucket bucket1]\<rparr>))
             else Inr (m2\<lparr>buckets := (buckets m2)[i := append_slice growcap bucket1 x]\<rparr>))
          else Inr (m2\<lparr>buckets := (buckets m2)
                      [i := slice_set (slice_extend bucket1)
                              (slice_len (slice_extend bucket1) - 1) x]\<rparr>)) = Inr m'"
  shows "spare_zero m'"
proof (cases "slice_len bucket1 + 1 > slice_cap bucket1")
  case False
  then obtain l c s where b: "bucket1 = Slice l (c # s)"
    by (cases bucket1; cases "spare bucket1") (auto simp: slice_len_def slice_cap_def)
  with assms False show ?thesis
    by (auto intro!: spare_zero_store)
next
  case full: True
  show ?thesis
  proof (cases "slice_len bucket1 < 3")
    case True
    let ?n = "slice_len bucket1"
    let ?m3 = "m2\<lparr>allocBuffer := (if allocBuffer m2 < 4 then 1024 else allocBuffer m2) - 4\<rparr>"
    have n: "newElemSlice m2 (?n + 1) 4 =
        Inr (Slice (replicate (?n + 1) zeroElem) (replicate (4 - (?n + 1)) zeroElem), ?m3)"
      using newElemSlice_fresh [OF assms(1), of "?n + 1" 4] True by simp
    have m3: "spare_zero ?m3"
      using assms(1) by (simp add: spare_zero_def)
    from full True n assms(3) freeElemSlice_spare_zero [OF m3 assms(2)] show ?thesis
      by (auto intro!: spare_zero_store)
  next
    case False
    from full have "spare bucket1 = []"
      by (cases "spare bucket1") (simp_all add: slice_len_def slice_cap_def)
    then have "spare (append_slice growcap bucket1 x) =
        replicate (growcap (slice_cap bucket1) - (slice_len bucket1 + 1)) zeroElem"
      by (cases bucket1) auto
    with full False assms show ?thesis
      by (auto intro!: spare_zero_store)
  qed
qed

lemma spare_zero_Put:
  fixes m :: "('k::zero, 'v::zero) GMap"
  assumes "spare_zero m" and "Put growcap m key val = Inr m'"
  shows "spare_zero m'"
proof -
  let ?bid = "unat (m_hash m key) mod length (buckets m)"
  let ?b = "buckets m ! ?bid"
  from assms(2) have ne: "buckets m \<noteq> []"
    by (auto simp: Put_def)
  then have bid: "?bid < length (buckets m)" by simp
  show ?thesis
  proof (cases "probe (m_equal m) (m_hash m key) key ?b")
    case (Some p)
    have "zero_cells (spare (slice_set ?b p ((elems ?b ! p)\<lparr>Value := val\<rparr>)))"
      using bucket_spare_zero [OF assms(1) bid] by simp
    from spare_zero_store [OF assms(1) this refl] assms(2) ne Some show ?thesis
      by (auto simp: Put_def Let_def)
  next
    case None
    obtain bucket1 m2 where
      f: "(if is_nil ?b then newElemSlice (m\<lparr>len := len m + 1\<rparr>) 0 1
           else Inr (?b, m\<lparr>len := len m + 1\<rparr>)) = Inr (bucket1, m2)"
      and z1: "zero_cells (spare bucket1)" and s2: "spare_zero m2"
      using upsert_first [OF assms(1) bid] by blast
    from assms(2) have "(if slice_len bucket1 + 1 > slice_cap bucket1 then
            (if slice_len bucket1 < 3 then
               (case newElemSlice m2 (slice_len bucket1 + 1) 4 of
                  Inl e \<Rightarrow> Inl e
                | Inr (newBucket, m3) \<Rightarrow>
                    Inr ((freeElemSlice m3 bucket1)
                           \<lparr>buckets := (buckets (freeElemSlice m3 bucket1))
                              [?bid := copy_slice newBucket bucket1]\<rparr>))
             else Inr (m2\<lparr>buckets := (buckets m2)
                         [?bid := append_slice growcap bucket1
                            \<lparr>Key = key, Value = val, hash = m_hash m key\<rparr>]\<rparr>))
          else Inr (m2\<lparr>buckets := (buckets m2)
                      [?bid := slice_set (slice_extend bucket1)
                              (slice_len (slice_extend bucket1) - 1)
                              \<lparr>Key = key, Value = val, hash = m_hash m key\<rparr>]\<rparr>)) = Inr m'"
      unfolding Put_def Let_def
      by (simp only: None option.case f sum.case prod.case) (simp add: ne)
    from put_grow [OF s2 z1 this] show ?thesis .
  qed
qed

lemma last_update_last: "xs \<noteq> [] \<Longrightarrow> last (xs[length xs - 1 := z]) = z"
  by (simp add: last_conv_nth)

lemma spare_zero_remove_slot:
  fixes m :: "('k::zero, 'v::zero) GMap"
  assumes "spare_zero m" and "remove_slot m bucketID p0 = Inr (elem, m')"
  shows "spare_zero m'"
proof -
  let ?m1 = "m\<lparr>len := len m - 1\<rparr>"
  let ?bid = "bucketID mod length (buckets m)"
  let ?b = "buckets m ! ?bid"
  let ?p = "p0 mod slice_len ?b"
  let ?b3 = "slice_shrink (slice_set (slice_shift ?b ?p) (slice_len (slice_shift ?b ?p) - 1) zeroElem)"
  from assms(2) have ne: "buckets m \<noteq> []" and nb: "slice_len ?b \<noteq> 0"
    by (auto simp: remove_slot_def Let_def split: if_splits)
  then have bid: "?bid < length (buckets m)" by simp
  have m1: "spare_zero ?m1"
    using assms(1) by (simp add: spare_zero_def)
  obtain l s where b: "?b = Slice l s" and l: "l \<noteq> []"
    using nb by (cases ?b) (auto simp: slice_len_def)
  have zs: "zero_cells s"
    using bucket_spare_zero [OF assms(1) bid] b by simp
  have ln: "length (take ?p l @ copy_cells (drop ?p l) (drop (Suc ?p) l)) = length l"
    by (simp add: copy_cells_def)
  have z3: "zero_cells (spare ?b3)"
  proof -
    define l1 where "l1 = take ?p l @ copy_cells (drop ?p l) (drop (Suc ?p) l)"
    have n: "l1 \<noteq> []"
      using ln l unfolding l1_def by (metis length_0_conv)
    have "?b3 = slice_shrink (Slice (l1[length l1 - 1 := zeroElem]) s)"
      by (simp add: b slice_len_def l1_def)
    also have "\<dots> = Slice (butlast (l1[length l1 - 1 := zeroElem]))
        (last (l1[length l1 - 1 := zeroElem]) # s)"
      using n by simp
    finally show ?thesis
      using zs last_update_last [OF n] by simp
  qed
  show ?thesis
  proof (cases "slice_len ?b3 = 0")
    case True
    with assms(2) ne nb have "m' = (freeElemSlice ?m1 ?b3)
        \<lparr>buckets := (buckets (freeElemSlice ?m1 ?b3))[?bid := NilSlice]\<rparr>"
      by (simp add: remove_slot_def Let_def)
    with freeElemSlice_spare_zero [OF m1 z3] show ?thesis
      by (auto intro!: spare_zero_store)
  next
    case False
    with assms(2) ne nb have "m' = ?m1\<lparr>buckets := (buckets ?m1)
          [?bid := copy_slice (make_slice (slice_cap ?b3 div 2)) ?b3]\<rparr>
        \<or> m' = ?m1\<lparr>buckets := (buckets ?m1)[?bid := ?b3]\<rparr>"
      by (simp add: remove_slot_def Let_def split: if_splits)
    with m1 z3 show ?thesis
      by (auto intro!: spare_zero_store simp: make_slice_def)
  qed
qed

lemma spare_zero_Remove:
  fixes m :: "('k::zero, 'v::zero) GMap"
  assumes "spare_zero m" and "Remove m key = Inr (r, m')"
  shows "spare_zero m'"
  using assms
  by (auto simp: Remove_def Let_def split: if_splits option.splits sum.splits
      dest: spare_zero_remove_slot)

lemma spare_zero_it_Remove:
  fixes m :: "('k::zero, 'v::zero) GMap"
  assumes "spare_zero m" and "it_Remove m it = Inr (elem, it', m')"
  shows "spare_zero m'"
  using assms
  by (auto simp: it_Remove_def Let_def split: if_splits sum.splits
      dest: spare_zero_remove_slot)

lemma spare_zero_Clear: "spare_zero m \<Longrightarrow> spare_zero (Clear m)"
  by (auto simp: spare_zero_def Clear_def)

lemma spare_zero_NewMap:
  "NewMap eq h bucketSizeOpt = Inr m \<Longrightarrow> spare_zero m"
  by (auto simp: NewMap_def spare_zero_def Let_def split: if_splits)

lemma spare_zero_apply_op:
  fixes m :: "('k::zero, 'v::zero) GMap"
  assumes "spare_zero m" and "apply_op growcap m x = Inr m'"
  shows "spare_zero m'"
proof (cases x)
  case (OpPut k v)
  with assms spare_zero_Put show ?thesis by auto
next
  case (OpUpsert k u)
  with assms obtain calls where "Upsert growcap m k u = Inr (calls, m')"
    by (cases "Upsert growcap m k u") auto
  with assms(1) spare_zero_Upsert show ?thesis by blast
next
  case (OpRemove k)
  with assms obtain r where "Remove m k = Inr (r, m')"
    by (cases "Remove m k") auto
  with assms(1) spare_zero_Remove show ?thesis by blast
next
  case OpClear
  with assms spare_zero_Clear show ?thesis by auto
qed

lemma spare_zero_run:
  fixes m :: "('k::zero, 'v::zero) GMap"
  shows "spare_zero m \<Longrightarrow> run growcap (Inr m) xs = Inr m' \<Longrightarrow> spare_zero m'"
proof (induction xs arbitrary: m)
  case Nil
  then show ?case by simp
next
  case (Cons x xs)
  show ?case
  proof (cases "apply_op growcap m x")
    case (Inl e)
    with Cons.prems show ?thesis by (cases xs) auto
  next
    case (Inr m1)
    with Cons.prems Cons.IH [of m1] spare_zero_apply_op [OF Cons.prems(1) Inr]
    show ?thesis by simp
  qed
qed

lemma run_Inl: "run growcap (Inl e) xs = Inl e"
  by (cases xs) simp_all

lemma spare_zero_reachable:
  fixes m :: "('k::zero, 'v::zero) GMap"
  assumes "run growcap (NewMap eq h bucketSizeOpt) xs = Inr m"
  shows "spare_zero m"
proof (cases "NewMap eq h bucketSizeOpt :: panic + ('k, 'v) GMap")
  case (Inl e)
  with assms show ?thesis by (simp add: run_Inl)
next
  case (Inr m0)
  with assms spare_zero_run [OF spare_zero_NewMap [OF Inr]] show ?thesis by simp
qed

subsection \<open>Put into a full chain shorter than 3, in general\<close>

text \<open>
  Whenever Put does not find the key and the chain of its bucket is full and shorter
  than 3, the chain it stores is the old one followed by a zero entry: the key and the
  value are not stored, and the counter is one more.
\<close>

lemma Put_full_short_chain:
  fixes m :: "('k::zero, 'v::zero) GMap"
  assumes "spare_zero m" and "buckets m \<noteq> []"
    and "buckets m ! (unat (m_hash m key) mod length (buckets m)) = Slice l []"
    and "length l < 3"
    and "probe (m_equal m) (m_hash m key) key (Slice l []) = None"
  shows "\<exists>m'. Put growcap m key val = Inr m'
           \<and> Len m' = Len m + 1
           \<and> elems (buckets m' ! (unat (m_hash m key) mod length (buckets m))) = l @ [zeroElem]"
proof -
  let ?bid = "unat (m_hash m key) mod length (buckets m)"
  let ?m1 = "m\<lparr>len := len m + 1\<rparr>"
  let ?m3 = "?m1\<lparr>allocBuffer := (if allocBuffer ?m1 < 4 then 1024 else allocBuffer ?m1) - 4\<rparr>"
  have bid: "?bid < length (buckets m)"
    using assms(2) by simp
  have m1: "spare_zero ?m1"
    using assms(1) by (simp add: spare_zero_def)
  have n: "newElemSlice ?m1 (slice_len (Slice l []) + 1) 4 =
      Inr (Slice (replicate (Suc (length l)) zeroElem) (replicate (4 - Suc (length l)) zeroElem), ?m3)"
    using newElemSlice_fresh [OF m1, of "Suc (length l)" 4] assms(4)
    by (simp add: slice_len_def)
  have c: "copy_slice (Slice (replicate (Suc (length l)) zeroElem) (replicate (4 - Suc (length l)) zeroElem))
             (Slice l [])
           = Slice (l @ [zeroElem]) (replicate (4 - Suc (length l)) (zeroElem :: ('k, 'v) MapElement))"
    by (simp only: copy_slice.simps elems.simps copy_cells_fresh)
  have f: "buckets (freeElemSlice ?m3 (Slice l [])) = buckets m"
    "len (freeElemSlice ?m3 (Slice l [])) = len m + 1"
    by (simp_all add: freeElemSlice_def Let_def)
  have g: "slice_cap (Slice l []) < slice_len (Slice l []) + 1" "slice_len (Slice l []) < 3"
    "\<not> is_nil (Slice l [])"
    using assms(4) by (simp_all add: slice_len_def slice_cap_def)
  have "Put growcap m key val =
      Inr ((freeElemSlice ?m3 (Slice l []))
             \<lparr>buckets := (buckets (freeElemSlice ?m3 (Slice l [])))
                [?bid := Slice (l @ [zeroElem]) (replicate (4 - Suc (length l)) zeroElem)]\<rparr>)"
    unfolding Put_def Let_def
    apply (simp only: assms(3) assms(5) option.case g if_False if_True n sum.case prod.case c)
    apply (simp add: assms(2))
    done
  then show ?thesis
    using bid f by (simp add: Len_def)
qed

subsection \<open>Reuse of freed buffers\<close>

lemma freed_four_view: "map_sum id table_view freed_four = Inr (table_view two_free)"
  by code_simp

text \<open>
  C6, as the code has it. The allocator reuses the buffer freed last when that buffer's
  length is at least the requested size, and returns it as it is; the capacities are not
  compared. Otherwise it carves a region of the requested size and capacity from the
  slab and leaves the free list alone. In a table built by the operations every freed
  buffer has length 0, so a buffer is reused for a request of size 0 only.
\<close>

theorem newElemSlice_reuse:
  fixes m :: "('k::zero, 'v::zero) GMap"
  shows "(0 < length (freeSlices m) \<and> sz \<le> slice_len (last (freeSlices m)) \<longrightarrow>
            newElemSlice m sz capacity =
              Inr (last (freeSlices m), m\<lparr>freeSlices := butlast (freeSlices m)\<rparr>))
       \<and> (\<not> (0 < length (freeSlices m) \<and> sz' \<le> slice_len (last (freeSlices m)))
            \<and> sz' \<le> capacity' \<and> capacity' \<le> 1024 \<longrightarrow>
            (\<exists>b m'. newElemSlice m sz' capacity' = Inr (b, m')
               \<and> slice_len b = sz' \<and> slice_cap b = capacity'
               \<and> freeSlices m' = freeSlices m
               \<and> allocBuffer m' + capacity'
                   = (if allocBuffer m < capacity' then 1024 else allocBuffer m)))
       \<and> (spare_zero m \<and> 0 < length (freeSlices m) \<longrightarrow>
            slice_len (last (freeSlices m)) = 0)"
  using free_top_empty [of m]
  by (auto simp: newElemSlice_def Let_def slice_len_def slice_cap_def)

theorem newElemSlice_reuse_witness:
  "request 0 1 two_free = Inr (0, 4, [1], 1018)
   \<and> request 2 4 two_free = Inr (2, 4, [1, 4], 1014)
   \<and> spare_zero two_free \<and> slice_len (last (freeSlices two_free)) = 0"
proof -
  have f: "0 < length (freeSlices two_free)"
    and l: "slice_len (last (freeSlices two_free)) = 0"
    and z: "spare_zero two_free"
    and a: "allocBuffer two_free = 1018"
    and c: "free_caps two_free = [1, 4]"
      "free_caps (two_free\<lparr>freeSlices := butlast (freeSlices two_free)\<rparr>) = [1]"
      "slice_cap (last (freeSlices two_free)) = 4"
    by (simp_all add: two_free_def slice_len_def slice_cap_def spare_zero_def free_caps_def)
  from newElemSlice_reuse [of two_free 0 1 2 4] f l z
  have r: "newElemSlice two_free 0 1 =
        Inr (last (freeSlices two_free), two_free\<lparr>freeSlices := butlast (freeSlices two_free)\<rparr>)"
    and "\<exists>b m'. newElemSlice two_free 2 4 = Inr (b, m') \<and> slice_len b = 2 \<and> slice_cap b = 4
          \<and> freeSlices m' = freeSlices two_free
          \<and> allocBuffer m' + 4 = (if allocBuffer two_free < 4 then 1024 else allocBuffer two_free)"
    by simp_all
  then obtain b m' where n: "newElemSlice two_free 2 4 = Inr (b, m')"
    and "slice_len b = 2" "slice_cap b = 4" "freeSlices m' = freeSlices two_free"
    "allocBuffer m' + 4 = 1018"
    using a by auto
  then show ?thesis
    using r l z a c by (simp add: request_def free_caps_def)
qed

text \<open>
  C6, as stated, fails. The free list of the table \<open>freed_four\<close> holds buffers of
  capacity 1 and 4, the one of capacity 4 freed last. A request of size 2 and capacity 4
  leaves the free list as it is and carves 4 cells from the slab.
\<close>

theorem reuse_ignores_capacity:
  "map_sum id free_caps freed_four = Inr [1, 4]
   \<and> map_sum id allocBuffer freed_four = Inr 1018
   \<and> map_sum id (request 2 4) freed_four = Inr (Inr (2, 4, [1, 4], 1014))"
  by code_simp

subsection \<open>Upsert\<close>

text \<open>
  Upsert is right about the chain as it finds it. On a table with at least one bucket
  whose spare cells are zero it makes one call of the callback, on a slot of the table
  it returns. If a slot of the chain matches the key, the callback sees the first such
  slot with the flag true, the counter is unchanged and the chain differs in that slot
  only, where it holds what the callback left. If none does, the callback sees an
  element with the key, its hash and the zero value, with the flag false; the counter
  is one more and the chain is the old one followed by what the callback left.
\<close>

lemma Upsert_on_chain:
  fixes m :: "('k::zero, 'v::zero) GMap"
  assumes "spare_zero m" and "buckets m \<noteq> []"
  shows "let h = m_hash m key;
             bid = unat h mod length (buckets m);
             b = buckets m ! bid
         in if chain_has (m_equal m) h key (elems b) then
              \<exists>p m'. Upsert growcap m key update = Inr ([(elems b ! p, True)], m')
                 \<and> p < slice_len b \<and> slot_matches (m_equal m) h key (elems b ! p)
                 \<and> (\<forall>j < p. \<not> slot_matches (m_equal m) h key (elems b ! j))
                 \<and> Len m' = Len m
                 \<and> elems (buckets m' ! bid) = (elems b)[p := update (elems b ! p) True]
            else
              \<exists>m' e. Upsert growcap m key update = Inr ([(e, False)], m')
                 \<and> Key e = key \<and> hash e = h \<and> Value e = 0
                 \<and> Len m' = Len m + 1
                 \<and> elems (buckets m' ! bid) = elems b @ [update e False]"
proof -
  let ?h = "m_hash m key"
  let ?bid = "unat ?h mod length (buckets m)"
  let ?b = "buckets m ! ?bid"
  have bid: "?bid < length (buckets m)"
    using assms(2) by simp
  show ?thesis
  proof (cases "probe (m_equal m) ?h key ?b")
    case (Some p)
    then have c: "chain_has (m_equal m) ?h key (elems ?b)"
      using probe_None_iff [of "m_equal m" ?h key ?b] by simp
    from probe_first [OF Some] bid Upsert_present [OF assms(2) Some, of growcap update] c
    show ?thesis
      by (auto simp: Len_def Let_def)
  next
    case None
    then have c: "\<not> chain_has (m_equal m) ?h key (elems ?b)"
      using probe_None_iff [of "m_equal m" ?h key ?b] by simp
    from Upsert_absent [OF assms None, of growcap update] bid c
    show ?thesis
      by (auto simp: Len_def Let_def zeroElem_def)
  qed
qed

text \<open>
  C4. The chains are not what the operations before Upsert should have left. After
  nine keys are put in one bucket and six are removed, the chain holds three keys and
  five zero entries: Upsert of key 0, which was never put in, calls the callback with
  the flag true on a zero entry and leaves the counter at 3. After \<open>Put(1, 10)\<close> and
  \<open>Put(2, 20)\<close> on one bucket the chain holds key 1 and a zero entry: Upsert of key 2
  calls the callback with the flag false and the counter goes from 2 to 3.
\<close>

theorem Upsert_sees_zero_entry:
  "map_sum id (\<lambda>m. (Len m, chain_keys m 0, upsert_view (Upsert double m 0 (set_value 7))))
     (run double nine_keys
        [OpRemove 1, OpRemove 2, OpRemove 3, OpRemove 4, OpRemove 5, OpRemove 6])
   = Inr (3, [7, 8, 9, 0, 0, 0, 0, 0], Inr ([((0, 0, 0), True)], 3))
   \<and> map_sum id (\<lambda>m. (Len m, chain_keys m 0, upsert_view (Upsert double m 2 (set_value 7))))
       put_once
   = Inr (2, [1, 0], Inr ([((2, 0, 2), False)], 3))"
  by code_simp

end
